theory Spec2Isabelle
  imports Complex_Main
begin

section \<open>Python list slices\<close>

text \<open>
  \<^verbatim>\<open>xs[:k]\<close>: the first \<open>k\<close> elements for \<open>k \<ge> 0\<close>; for a negative \<open>k\<close> the
  stop index is \<open>len(xs) + k\<close>, clamped at 0, so all but the last \<open>-k\<close> elements.
\<close>

definition slice_to :: "int \<Rightarrow> 'a list \<Rightarrow> 'a list" where
  "slice_to k xs =
     (if k < 0 then take (length xs - nat (- k)) xs else take (nat k) xs)"

text \<open>
  \<^verbatim>\<open>xs[i:]\<close>: a negative start index counts from the end and is clamped at 0; a start
  index of 0 (also when written \<^verbatim>\<open>-0\<close>) gives the whole list.
\<close>

definition slice_from :: "int \<Rightarrow> 'a list \<Rightarrow> 'a list" where
  "slice_from i xs =
     (if i < 0 then drop (length xs - nat (- i)) xs else drop (nat i) xs)"

section \<open>Ranking metrics\<close>

text \<open>
  \<^verbatim>\<open>precision_at_k\<close> and \<^verbatim>\<open>recall_at_k\<close>. The argument \<open>relevant\<close> is any Python
  collection, given here by the sequence of its elements (a set is a sequence without
  repetitions); \<^verbatim>\<open>set(relevant)\<close> is \<open>set relevant\<close> and \<^verbatim>\<open>len(relevant)\<close> is
  \<open>length relevant\<close>. The quotient of the two integers is the exact rational number.
\<close>

definition precision_at_k :: "'a list \<Rightarrow> 'a list \<Rightarrow> int \<Rightarrow> rat" where
  "precision_at_k recommended relevant k =
     (let top_k = slice_to k recommended;
          relevant_set = set relevant;
          hits = length (filter (\<lambda>item. item \<in> relevant_set) top_k)
      in if k > 0 then of_nat hits / of_int k else 0)"

definition recall_at_k :: "'a list \<Rightarrow> 'a list \<Rightarrow> int \<Rightarrow> rat" where
  "recall_at_k recommended relevant k =
     (let top_k = slice_to k recommended;
          relevant_set = set relevant;
          hits = card (set top_k \<inter> relevant_set);
          total_relevant_at_k = min (int (length relevant)) k
      in if total_relevant_at_k > 0 then of_nat hits / of_int total_relevant_at_k else 0)"

section \<open>Item-id remapping\<close>

text \<open>
  \<^verbatim>\<open>Series.unique()\<close> of pandas: the distinct values in order of first appearance. The
  values are scanned once and a value is kept when it has not been seen before.
\<close>

fun unique_from :: "'a list \<Rightarrow> 'a list \<Rightarrow> 'a list" where
  "unique_from seen [] = []"
| "unique_from seen (x # xs) =
     (if x \<in> set seen then unique_from seen xs else x # unique_from (x # seen) xs)"

definition unique :: "'a list \<Rightarrow> 'a list" where
  "unique xs = unique_from [] xs"

text \<open>
  \<^verbatim>\<open>all_items = pd.concat([df_train['item_idx'], df_test['item_idx']]).unique()\<close>,
  with the two columns given as lists.
\<close>

definition all_items :: "int list \<Rightarrow> int list \<Rightarrow> int list" where
  "all_items train test = unique (train @ test)"

text \<open>
  \<^verbatim>\<open>item_mapping = {old_idx: new_idx for new_idx, old_idx in enumerate(all_items)}\<close>:
  the dictionary is filled entry by entry, a later entry for the same key replacing an
  earlier one.
\<close>

definition item_mapping :: "int list \<Rightarrow> int list \<Rightarrow> (int \<rightharpoonup> nat)" where
  "item_mapping train test =
     fold (\<lambda>(new_idx, old_idx) m. m(old_idx \<mapsto> new_idx))
          (enumerate 0 (all_items train test)) Map.empty"

text \<open>
  \<^verbatim>\<open>Series.map(dict)\<close> looks every value up (a missing key gives a missing value) and
  \<^verbatim>\<open>Series.nunique()\<close> counts the distinct values that are not missing.
\<close>

definition series_map :: "('a \<rightharpoonup> 'b) \<Rightarrow> 'a list \<Rightarrow> 'b option list" where
  "series_map m xs = map m xs"

definition nunique :: "'b option list \<Rightarrow> nat" where
  "nunique xs = length (unique (concat (map (\<lambda>v. case v of None \<Rightarrow> [] | Some y \<Rightarrow> [y]) xs)))"

text \<open>
  \<^verbatim>\<open>num_items = df_train['item_idx'].nunique()\<close>, taken after the train column has
  been remapped.
\<close>

definition num_items_of :: "int list \<Rightarrow> int list \<Rightarrow> nat" where
  "num_items_of train test = nunique (series_map (item_mapping train test) train)"

text \<open>Position of the first occurrence of a value in a list (its length when absent).\<close>

definition first_index :: "'a list \<Rightarrow> 'a \<Rightarrow> nat" where
  "first_index xs x = length (takeWhile (\<lambda>y. y \<noteq> x) xs)"

section \<open>The environment\<close>

text \<open>
  An entry of the observation array. The array has dtype float32; its entries are kept
  as exact rationals, and a Python \<^verbatim>\<open>None\<close> stored in it becomes not-a-number.
\<close>

datatype cell = NaN | Num rat

datatype error = ValueError | IndexError | RuntimeError

text \<open>
  The fields of \<^verbatim>\<open>AmazonEnv\<close> that \<^verbatim>\<open>reset\<close>, \<^verbatim>\<open>step\<close> and the agent read or write.
  \<open>df_user_idx\<close> is \<^verbatim>\<open>self.df['user_idx'].unique()\<close>; \<open>user_interactions\<close> maps a user to
  the elements of its item set in iteration order; \<open>user_ratings\<close> is keyed by
  (user, item). \<open>N\<close>, \<open>M\<close> and \<open>num_items\<close> are Python integers.
\<close>

record env =
  df_user_idx :: "int list"
  user_interactions :: "int \<rightharpoonup> int list"
  user_ratings :: "int \<times> int \<rightharpoonup> rat"
  num_items :: int
  N :: int
  M :: int
  current_user :: "int option"
  history :: "(int \<times> rat) list"

definition user_cell :: "int option \<Rightarrow> cell" where
  "user_cell cu = (case cu of None \<Rightarrow> NaN | Some u \<Rightarrow> Num (of_int u))"

text \<open>
  \<^verbatim>\<open>reset\<close>. \<^verbatim>\<open>np.random.choice\<close> picks the element at a random index below the number
  of users and raises ValueError on an empty array; the index drawn is the argument
  \<open>i\<close>, and an index that no draw can produce is reported as that error.
\<close>

definition reset :: "env \<Rightarrow> nat \<Rightarrow> error + (cell list \<times> env)" where
  "reset e i =
     (if i < length (df_user_idx e)
      then let u = df_user_idx e ! i;
               state = Num (of_int u) # replicate (nat (N e)) (Num 0) @ replicate (nat (N e)) (Num 0)
           in Inr (state, e\<lparr>current_user := Some u, history := []\<rparr>)
      else Inl ValueError)"

text \<open>
  The reward of \<^verbatim>\<open>step\<close>: the stored rating when the key (current user, action) is in
  \<^verbatim>\<open>user_ratings\<close>, otherwise -0.1. With no current user the key is in no store.
\<close>

definition reward_of :: "env \<Rightarrow> int \<Rightarrow> rat" where
  "reward_of e action =
     (case current_user e of
        None \<Rightarrow> - (1 / 10)
      | Some u \<Rightarrow> (case user_ratings e (u, action) of Some r \<Rightarrow> r | None \<Rightarrow> - (1 / 10)))"

text \<open>The item slots and the rating slots that \<^verbatim>\<open>step\<close> builds from the history.\<close>

definition state_items :: "int \<Rightarrow> (int \<times> rat) list \<Rightarrow> int list" where
  "state_items n h =
     (if int (length h) < n
      then replicate (nat (n - int (length h))) 0 @ map fst h
      else map fst (slice_from (- n) h))"

definition state_ratings :: "int \<Rightarrow> (int \<times> rat) list \<Rightarrow> rat list" where
  "state_ratings n h =
     (if int (length h) < n
      then replicate (nat (n - int (length h))) 0 @ map snd h
      else map snd (slice_from (- n) h))"

text \<open>
  \<^verbatim>\<open>step\<close> returns the observation, the reward and the done flag (the empty info
  dictionary is left out), together with the environment after the step.
\<close>

definition step :: "env \<Rightarrow> int \<Rightarrow> (cell list \<times> rat \<times> bool) \<times> env" where
  "step e action =
     (let reward = reward_of e action;
          h = history e @ [(action, reward)];
          state = user_cell (current_user e)
                    # map (\<lambda>i. Num (of_int i)) (state_items (N e) h)
                    @ map Num (state_ratings (N e) h);
          done = (int (length h) \<ge> M e)
      in ((state, reward, done), e\<lparr>history := h\<rparr>))"

text \<open>The components of what \<^verbatim>\<open>step\<close> returns.\<close>

abbreviation step_state :: "(cell list \<times> rat \<times> bool) \<times> env \<Rightarrow> cell list" where
  "step_state r \<equiv> fst (fst r)"

abbreviation step_reward :: "(cell list \<times> rat \<times> bool) \<times> env \<Rightarrow> rat" where
  "step_reward r \<equiv> fst (snd (fst r))"

abbreviation step_done :: "(cell list \<times> rat \<times> bool) \<times> env \<Rightarrow> bool" where
  "step_done r \<equiv> snd (snd (fst r))"

abbreviation step_env :: "(cell list \<times> rat \<times> bool) \<times> env \<Rightarrow> env" where
  "step_env r \<equiv> snd r"

text \<open>The environment after a sequence of steps.\<close>

fun run_steps :: "env \<Rightarrow> int list \<Rightarrow> env" where
  "run_steps e [] = e"
| "run_steps e (a # as) = run_steps (step_env (step e a)) as"

section \<open>The agent\<close>

text \<open>
  \<^verbatim>\<open>tensor.argmax()\<close> over all entries: the index of the first maximal value, as the
  library documents it.
\<close>

fun argmax_from :: "nat \<Rightarrow> rat \<Rightarrow> nat \<Rightarrow> rat list \<Rightarrow> nat" where
  "argmax_from best v i [] = best"
| "argmax_from best v i (x # xs) =
     (if v < x then argmax_from i x (Suc i) xs else argmax_from best v (Suc i) xs)"

definition argmax :: "rat list \<Rightarrow> nat" where
  "argmax xs = (case xs of [] \<Rightarrow> 0 | x # rest \<Rightarrow> argmax_from 0 x 1 rest)"

text \<open>\<^verbatim>\<open>int(x)\<close> of a float: truncation towards zero.\<close>

definition py_int :: "rat \<Rightarrow> int" where
  "py_int x = (if x < 0 then \<lceil>x\<rceil> else \<lfloor>x\<rfloor>)"

text \<open>
  \<^verbatim>\<open>DQNAgent.select_action\<close>. The network is the function \<open>policy_net\<close> from the state
  to the vector of scores; \<open>u\<close> is the value that \<^verbatim>\<open>random.random()\<close> returns and \<open>c\<close>
  the index that \<^verbatim>\<open>random.choice\<close> draws. \<^verbatim>\<open>state[0]\<close> of an empty array raises
  IndexError, \<^verbatim>\<open>int\<close> of not-a-number raises ValueError, the maximum of an empty tensor
  raises RuntimeError. \<^verbatim>\<open>random.random()\<close> is only called when the user has items.
\<close>

definition select_action ::
  "env \<Rightarrow> (cell list \<Rightarrow> rat list) \<Rightarrow> cell list \<Rightarrow> rat \<Rightarrow> nat \<Rightarrow> error + int" where
  "select_action e policy_net state u c =
     (case state of
        [] \<Rightarrow> Inl IndexError
      | NaN # _ \<Rightarrow> Inl ValueError
      | Num x # _ \<Rightarrow>
          (let user_idx = py_int x;
               user_items = (case user_interactions e user_idx of None \<Rightarrow> [] | Some s \<Rightarrow> s);
               q_values = policy_net state
           in if q_values = [] then Inl RuntimeError
              else if user_items \<noteq> [] \<and> u < 3 / 4
                   then (if c < length user_items then Inr (user_items ! c) else Inl IndexError)
                   else Inr (int (argmax q_values))))"

section \<open>One evaluation episode\<close>

text \<open>
  The body of \<^verbatim>\<open>while not done\<close> in \<^verbatim>\<open>evaluate_agent\<close>; \<^verbatim>\<open>done\<close> starts False, so the
  body runs at least once. \<open>draws t\<close> are the two random values used by the call of
  \<^verbatim>\<open>select_action\<close> made after \<open>t\<close> recommendations. The loop ends because every
  step lengthens the history.
\<close>

function episode_loop ::
  "(cell list \<Rightarrow> rat list) \<Rightarrow> (nat \<Rightarrow> rat \<times> nat) \<Rightarrow> env \<Rightarrow> cell list \<Rightarrow> int list \<Rightarrow> rat
     \<Rightarrow> error + (env \<times> cell list \<times> int list \<times> rat)" where
  "episode_loop net draws e state recommended_items total_reward =
     (case select_action e net state (fst (draws (length recommended_items)))
                                      (snd (draws (length recommended_items))) of
        Inl err \<Rightarrow> Inl err
      | Inr action \<Rightarrow>
          (if step_done (step e action)
           then Inr (step_env (step e action), step_state (step e action),
                     recommended_items @ [action],
                     total_reward + step_reward (step e action))
           else episode_loop net draws (step_env (step e action)) (step_state (step e action))
                     (recommended_items @ [action])
                     (total_reward + step_reward (step e action))))"
  by pat_completeness auto
termination
  by (relation "measure (\<lambda>(net, draws, e, state, recs, tot). nat (M e - int (length (history e))))")
     (auto simp: step_def Let_def)

definition run_episode ::
  "(cell list \<Rightarrow> rat list) \<Rightarrow> (nat \<Rightarrow> rat \<times> nat) \<Rightarrow> env \<Rightarrow> nat
     \<Rightarrow> error + (env \<times> cell list \<times> int list \<times> rat)" where
  "run_episode net draws e i =
     (case reset e i of
        Inl err \<Rightarrow> Inl err
      | Inr (state, e0) \<Rightarrow> episode_loop net draws e0 state [] 0)"

section \<open>A small store\<close>

text \<open>
  Two users and three items. User 7 has rated item 0 with 0 and item 2 with 5; user 8
  has no interaction. The window is \<open>N = 5\<close> and an episode has \<open>M = 10\<close> steps.
\<close>

definition shop :: env where
  "shop = \<lparr> df_user_idx = [7, 8],
            user_interactions = [7 \<mapsto> [0, 2]],
            user_ratings = [(7, 0) \<mapsto> 0, (7, 2) \<mapsto> 5],
            num_items = 3, N = 5, M = 10,
            current_user = None, history = [] \<rparr>"

text \<open>The same store just after \<^verbatim>\<open>reset\<close> has drawn user 7.\<close>

definition shop7 :: env where
  "shop7 = shop\<lparr>current_user := Some 7\<rparr>"

section \<open>Facts about slices\<close>

lemma length_slice_to_le: "0 \<le> k \<Longrightarrow> int (length (slice_to k xs)) \<le> k"
  by (simp add: slice_to_def)

lemma slice_to_nonneg: "0 \<le> k \<Longrightarrow> slice_to k xs = take (nat k) xs"
  by (simp add: slice_to_def)

lemma card_inter_as_list:
  "card (set xs \<inter> set ys) = length (remdups (filter (\<lambda>x. x \<in> set ys) xs))"
proof -
  have "set xs \<inter> set ys = set (filter (\<lambda>x. x \<in> set ys) xs)"
    by auto
  then show ?thesis
    by (simp only: length_remdups_card_conv)
qed

lemma card_inter_le_left: "card (set xs \<inter> B) \<le> length xs"
proof -
  have "card (set xs \<inter> B) \<le> card (set xs)"
    by (rule card_mono) auto
  also have "\<dots> \<le> length xs"
    by (rule card_length)
  finally show ?thesis .
qed

lemma card_inter_le_right: "card (A \<inter> set ys) \<le> length ys"
proof -
  have "card (A \<inter> set ys) \<le> card (set ys)"
    by (rule card_mono) auto
  also have "\<dots> \<le> length ys"
    by (rule card_length)
  finally show ?thesis .
qed

lemma distinct_filter_card:
  "distinct xs \<Longrightarrow> length (filter (\<lambda>x. x \<in> B) xs) = card (set xs \<inter> B)"
proof -
  assume d: "distinct xs"
  have "set (filter (\<lambda>x. x \<in> B) xs) = set xs \<inter> B"
    by auto
  moreover have "distinct (filter (\<lambda>x. x \<in> B) xs)"
    using d by simp
  ultimately show ?thesis
    by (metis distinct_card)
qed

section \<open>Recall at k\<close>

text \<open>
  Claim C1. \<open>recall_at_k recommended relevant k\<close> is the number of distinct items
  among the first \<open>k\<close> entries of \<open>recommended\<close> that are relevant, divided by
  \<open>min(len(relevant), k)\<close>, whenever that minimum is positive, and it is 0 whenever the
  minimum is 0. In particular it is 0 for an empty \<open>relevant\<close> and any \<open>k > 0\<close>, and
  it is 0 for every \<open>k \<le> 0\<close>.
\<close>

theorem recall_at_k_formula:
  fixes recommended relevant :: "'a list" and k :: int
  shows "(0 < min (int (length relevant)) k \<longrightarrow>
            recall_at_k recommended relevant k =
              of_nat (card (set (take (nat k) recommended) \<inter> set relevant))
                / of_int (min (int (length relevant)) k))
       \<and> (min (int (length relevant)) k = 0 \<longrightarrow> recall_at_k recommended relevant k = 0)
       \<and> (0 < k \<and> relevant = [] \<longrightarrow> recall_at_k recommended relevant k = 0)
       \<and> (k \<le> 0 \<longrightarrow> recall_at_k recommended relevant k = 0)"
  by (simp add: recall_at_k_def slice_to_def Let_def)

theorem recall_at_k_formula_witness:
  "0 < min (int (length [358, 1034, 999 :: int])) 5
   \<and> recall_at_k [156, 358, 58, 478, 1034] [358, 1034, 999 :: int] 5 = 2 / 3
   \<and> 0 < min (int (length [3 :: int])) 1
   \<and> recall_at_k [1, 2, 3] [3 :: int] 1 = 0
   \<and> recall_at_k [3, 1, 2] [3 :: int] 1 = 1
   \<and> recall_at_k [1, 2, 3, 4] [2, 4, 9 :: int] 2 = 1 / 2
   \<and> min (int (length [4 :: int])) 0 = 0
   \<and> recall_at_k [1, 2, 3] [4 :: int] 0 = 0
   \<and> recall_at_k [1, 2, 3] ([] :: int list) 3 = 0
   \<and> recall_at_k [1, 2, 3] [1 :: int] (- 1) = 0
   \<and> recall_at_k [1, 2, 3] [4, 5 :: int] 3 = 0"
  using recall_at_k_formula [of "[358, 1034, 999 :: int]" 5 "[156, 358, 58, 478, 1034]"]
        recall_at_k_formula [of "[3 :: int]" 1 "[1, 2, 3]"]
        recall_at_k_formula [of "[3 :: int]" 1 "[3, 1, 2]"]
        recall_at_k_formula [of "[2, 4, 9 :: int]" 2 "[1, 2, 3, 4]"]
        recall_at_k_formula [of "[4 :: int]" 0 "[1, 2, 3]"]
        recall_at_k_formula [of "[] :: int list" 3 "[1, 2, 3]"]
        recall_at_k_formula [of "[1 :: int]" "- 1" "[1, 2, 3]"]
        recall_at_k_formula [of "[4, 5 :: int]" 3 "[1, 2, 3]"]
  by (simp add: card_inter_as_list)

section \<open>Precision at k\<close>

text \<open>
  Claim C2, as the code has it. For \<open>k > 0\<close>, \<open>precision_at_k recommended relevant k\<close>
  is the number of entries among the first \<open>k\<close> entries of \<open>recommended\<close> that are
  relevant, every occurrence of a repeated item counted, divided by \<open>k\<close>; when the
  first \<open>k\<close> entries have no repeated item this is the size of the intersection of
  the first \<open>k\<close> entries with \<open>relevant\<close> divided by \<open>k\<close>. For \<open>k \<le> 0\<close> the
  result is 0.
\<close>

theorem precision_at_k_formula:
  fixes recommended relevant :: "'a list" and k :: int
  shows "(0 < k \<longrightarrow>
            precision_at_k recommended relevant k =
              of_nat (length (filter (\<lambda>item. item \<in> set relevant) (take (nat k) recommended)))
                / of_int k)
       \<and> (0 < k \<and> distinct (take (nat k) recommended) \<longrightarrow>
            precision_at_k recommended relevant k =
              of_nat (card (set (take (nat k) recommended) \<inter> set relevant)) / of_int k)
       \<and> (k \<le> 0 \<longrightarrow> precision_at_k recommended relevant k = 0)"
  by (simp add: precision_at_k_def slice_to_def Let_def distinct_filter_card)

theorem precision_at_k_formula_witness:
  "precision_at_k [156, 358, 58, 478, 1034] [358, 1034, 999 :: int] 5 = 2 / 5
   \<and> distinct (take (nat 5) [156, 358, 58, 478, 1034 :: int])
   \<and> of_nat (card (set (take (nat 5) [156, 358, 58, 478, 1034 :: int]) \<inter> set [358, 1034, 999]))
         / of_int 5 = (2 / 5 :: rat)
   \<and> precision_at_k [1, 1, 1 :: int] [1] 1 = 1
   \<and> precision_at_k [5, 1, 1 :: int] [1] 1 = 0
   \<and> precision_at_k [7, 7, 1, 7 :: int] [7] 3 = 2 / 3
   \<and> distinct (take (nat 2) [4, 6, 4 :: int])
   \<and> precision_at_k [4, 6, 4 :: int] [4] 2 = 1 / 2
   \<and> precision_at_k [1, 2, 3] [1 :: int] 0 = 0
   \<and> precision_at_k [1, 2, 3] [1 :: int] (- 1) = 0"
  using precision_at_k_formula [of 5 "[156, 358, 58, 478, 1034]" "[358, 1034, 999 :: int]"]
        precision_at_k_formula [of 1 "[1, 1, 1 :: int]" "[1]"]
        precision_at_k_formula [of 1 "[5, 1, 1 :: int]" "[1]"]
        precision_at_k_formula [of 3 "[7, 7, 1, 7 :: int]" "[7]"]
        precision_at_k_formula [of 2 "[4, 6, 4 :: int]" "[4]"]
        precision_at_k_formula [of 0 "[1, 2, 3]" "[1 :: int]"]
        precision_at_k_formula [of "- 1" "[1, 2, 3]" "[1 :: int]"]
  by (simp add: card_inter_as_list)

text \<open>
  The numerator is not the size of a set intersection: an item recommended twice and
  relevant is counted twice. With \<open>recommended = [1, 1, 1]\<close>, \<open>relevant = {1}\<close> and
  \<open>k = 2\<close> the precision is 1, while the intersection of the first two entries
  with \<open>relevant\<close> has one element.
\<close>

theorem precision_at_k_set_counterexample:
  "precision_at_k [1, 1, 1 :: int] [1] 2 = 1
   \<and> of_nat (card (set (take (nat 2) [1, 1, 1 :: int]) \<inter> set [1])) / of_int 2 = (1 / 2 :: rat)
   \<and> precision_at_k [1, 1, 1 :: int] [1] 2
        \<noteq> of_nat (card (set (take (nat 2) [1, 1, 1 :: int]) \<inter> set [1])) / of_int 2"
  by (simp add: precision_at_k_def slice_to_def card_inter_as_list)

section \<open>Both metrics lie between 0 and 1\<close>

text \<open>
  Claim C9. For every \<open>k > 0\<close>, every list \<open>recommended\<close> and every collection
  \<open>relevant\<close>, precision at k and recall at k are both in the closed interval from 0
  to 1.
\<close>

theorem metrics_in_unit_interval:
  fixes recommended relevant :: "'a list" and k :: int
  assumes "0 < k"
  shows "0 \<le> precision_at_k recommended relevant k \<and> precision_at_k recommended relevant k \<le> 1
       \<and> 0 \<le> recall_at_k recommended relevant k \<and> recall_at_k recommended relevant k \<le> 1"
proof -
  let ?top = "slice_to k recommended"
  have top_le: "int (length ?top) \<le> k"
    using assms by (simp add: length_slice_to_le)
  have "length (filter (\<lambda>item. item \<in> set relevant) ?top) \<le> length ?top"
    by (rule length_filter_le)
  with top_le have p_hits: "int (length (filter (\<lambda>item. item \<in> set relevant) ?top)) \<le> k"
    by linarith
  then have p_hits': "(of_nat (length (filter (\<lambda>item. item \<in> set relevant) ?top)) :: rat) \<le> of_int k"
    by (metis of_int_le_iff of_int_of_nat_eq)
  have prec: "0 \<le> precision_at_k recommended relevant k \<and> precision_at_k recommended relevant k \<le> 1"
    using assms p_hits' by (simp add: precision_at_k_def Let_def)
  have "card (set ?top \<inter> set relevant) \<le> length ?top"
    by (rule card_inter_le_left)
  with top_le have r1: "int (card (set ?top \<inter> set relevant)) \<le> k"
    by linarith
  have r2: "int (card (set ?top \<inter> set relevant)) \<le> int (length relevant)"
    using card_inter_le_right [of "set ?top" relevant] by simp
  from r1 r2 have "int (card (set ?top \<inter> set relevant)) \<le> min (int (length relevant)) k"
    by simp
  then have r_hits: "(of_nat (card (set ?top \<inter> set relevant)) :: rat)
                        \<le> of_int (min (int (length relevant)) k)"
    by (metis of_int_le_iff of_int_of_nat_eq)
  have rec: "0 \<le> recall_at_k recommended relevant k \<and> recall_at_k recommended relevant k \<le> 1"
    using r_hits by (simp add: recall_at_k_def Let_def)
  from prec rec show ?thesis by simp
qed

theorem metrics_in_unit_interval_witness:
  "(0 :: int) < 5
   \<and> 0 \<le> precision_at_k [156, 358, 58, 478, 1034] [358, 1034, 999 :: int] 5
   \<and> precision_at_k [156, 358, 58, 478, 1034] [358, 1034, 999 :: int] 5 \<le> 1
   \<and> 0 \<le> recall_at_k [156, 358, 58, 478, 1034] [358, 1034, 999 :: int] 5
   \<and> recall_at_k [156, 358, 58, 478, 1034] [358, 1034, 999 :: int] 5 \<le> 1"
  using metrics_in_unit_interval [of 5 "[156, 358, 58, 478, 1034]" "[358, 1034, 999 :: int]"]
  by simp

section \<open>Facts about a step\<close>

lemma step_fields [simp]:
  "df_user_idx (step_env (step e a)) = df_user_idx e"
  "user_interactions (step_env (step e a)) = user_interactions e"
  "user_ratings (step_env (step e a)) = user_ratings e"
  "num_items (step_env (step e a)) = num_items e"
  "N (step_env (step e a)) = N e"
  "M (step_env (step e a)) = M e"
  "current_user (step_env (step e a)) = current_user e"
  by (simp_all add: step_def Let_def)

lemma step_history: "history (step_env (step e a)) = history e @ [(a, reward_of e a)]"
  by (simp add: step_def Let_def)

lemma step_reward_eq: "step_reward (step e a) = reward_of e a"
  by (simp add: step_def Let_def)

lemma step_done_eq: "step_done (step e a) \<longleftrightarrow> M e \<le> int (length (history e)) + 1"
  by (simp add: step_def Let_def add.commute)

lemma step_state_eq:
  "step_state (step e a) =
     user_cell (current_user e)
       # map (\<lambda>i. Num (of_int i)) (state_items (N e) (history e @ [(a, reward_of e a)]))
       @ map Num (state_ratings (N e) (history e @ [(a, reward_of e a)]))"
  by (simp add: step_def Let_def)

section \<open>Reward and history of a step\<close>

text \<open>
  Claim C3. In every state whose current user is set and for every action \<open>a\<close>,
  \<open>step\<close> returns the stored rating of (current user, \<open>a\<close>) as reward when the store
  has one and the penalty -0.1 when it has none, and it appends exactly the pair
  (\<open>a\<close>, reward) to the end of the history, which grows by one entry.
\<close>

theorem step_reward_and_history:
  assumes "current_user e = Some u"
  shows "(\<forall>r. user_ratings e (u, a) = Some r \<longrightarrow> step_reward (step e a) = r)
       \<and> (user_ratings e (u, a) = None \<longrightarrow> step_reward (step e a) = - (1 / 10))
       \<and> history (step_env (step e a)) = history e @ [(a, step_reward (step e a))]
       \<and> length (history (step_env (step e a))) = length (history e) + 1"
  using assms by (simp add: step_history step_reward_eq reward_of_def)

theorem step_reward_and_history_witness:
  "current_user shop7 = Some 7
   \<and> user_ratings shop7 (7, 2) = Some 5 \<and> step_reward (step shop7 2) = 5
   \<and> history (step_env (step shop7 2)) = [(2, 5)]
   \<and> user_ratings shop7 (7, 1) = None \<and> step_reward (step shop7 1) = - (1 / 10)
   \<and> history (step_env (step shop7 1)) = [(1, - (1 / 10))]
   \<and> length (history (step_env (step shop7 1))) = length (history shop7) + 1"
  using step_reward_and_history [of shop7 7 2] step_reward_and_history [of shop7 7 1]
  by (simp add: shop7_def shop_def)

section \<open>Actions outside the item range\<close>

text \<open>
  Claim C8, as the code has it. \<open>step\<close> does not check the action against
  \<open>num_items\<close> and has no error result. In a state whose current user is set, and with
  a store whose keys only hold item ids in the range from 0 up to \<open>num_items\<close>, an
  action outside that range is treated like any item without a rating: the reward is
  -0.1 and the pair (action, -0.1) is appended to the history.
\<close>

theorem step_out_of_range_action:
  assumes "current_user e = Some u"
      and "a < 0 \<or> num_items e \<le> a"
      and "\<forall>k \<in> dom (user_ratings e). 0 \<le> snd k \<and> snd k < num_items e"
  shows "step_reward (step e a) = - (1 / 10)
       \<and> history (step_env (step e a)) = history e @ [(a, - (1 / 10))]"
proof -
  have "(u, a) \<notin> dom (user_ratings e)"
  proof
    assume "(u, a) \<in> dom (user_ratings e)"
    then have "0 \<le> snd (u, a) \<and> snd (u, a) < num_items e"
      using assms(3) by blast
    with assms(2) show False by simp
  qed
  then have "user_ratings e (u, a) = None"
    by blast
  then have "reward_of e a = - (1 / 10)"
    using assms(1) by (simp add: reward_of_def)
  then show ?thesis
    by (simp add: step_history step_reward_eq)
qed

theorem step_out_of_range_action_witness:
  "current_user shop7 = Some 7 \<and> num_items shop7 \<le> 99
   \<and> step_reward (step shop7 99) = - (1 / 10)
   \<and> history (step_env (step shop7 99)) = history shop7 @ [(99, - (1 / 10))]"
proof -
  have a: "current_user shop7 = Some 7" by (simp add: shop7_def shop_def)
  have b: "(99::int) < 0 \<or> num_items shop7 \<le> 99" by (simp add: shop7_def shop_def)
  have c: "\<forall>k \<in> dom (user_ratings shop7). 0 \<le> snd k \<and> snd k < num_items shop7"
    by (simp add: shop7_def shop_def)
  show ?thesis
    using a b c step_out_of_range_action [OF a b c] by simp
qed

text \<open>
  With three items, the action -1 for user 7 gives an ordinary result: an observation
  that holds -1 in its last item slot, the reward -0.1, and a history with the new pair.
\<close>

theorem step_invalid_action_counterexample:
  "current_user shop7 = Some 7 \<and> num_items shop7 = 3
   \<and> step (shop7\<lparr>history := []\<rparr>) (- 1) =
       (([Num 7, Num 0, Num 0, Num 0, Num 0, Num (- 1), Num 0, Num 0, Num 0, Num 0, Num (- (1 / 10))],
         - (1 / 10), False),
        shop7\<lparr>history := [(- 1, - (1 / 10))]\<rparr>)"
  by (simp add: shop7_def shop_def step_def reward_of_def state_items_def state_ratings_def
        user_cell_def Let_def numeral_eq_Suc)

section \<open>Two states with one observation\<close>

text \<open>
  Claim C10. The observation does not determine the state of the episode: there are
  two different reachable states with the same current user, one just after
  \<open>reset\<close> with an empty history and one after a step with history \<open>[(0, 0)]\<close> (the
  store rates item 0 with 0 for that user), whose observations are equal, since item id
  0 and reward 0 look like the zero padding.
\<close>

theorem observation_not_injective:
  "\<exists>e0 e1 obs0 obs1 r d.
      reset shop 0 = Inr (obs0, e0) \<and> step e0 0 = ((obs1, r, d), e1)
      \<and> current_user e0 = Some 7 \<and> current_user e1 = Some 7
      \<and> history e0 = [] \<and> history e1 = [(0, 0)] \<and> e0 \<noteq> e1 \<and> obs0 = obs1"
proof -
  let ?e0 = "shop\<lparr>current_user := Some 7, history := []\<rparr>"
  let ?obs = "[Num 7, Num 0, Num 0, Num 0, Num 0, Num 0, Num 0, Num 0, Num 0, Num 0, Num 0]"
  let ?e1 = "?e0\<lparr>history := [(0, 0)]\<rparr>"
  have r: "reset shop 0 = Inr (?obs, ?e0)"
    by (simp add: reset_def shop_def Let_def numeral_eq_Suc)
  have s: "step ?e0 0 = ((?obs, 0, False), ?e1)"
    by (simp add: shop_def step_def reward_of_def state_items_def state_ratings_def
          user_cell_def Let_def numeral_eq_Suc)
  have "history ?e0 \<noteq> history ?e1" by simp
  then have ne: "?e0 \<noteq> ?e1" by metis
  show ?thesis
    using r s ne by (intro exI [of _ ?e0] exI [of _ ?e1] exI [of _ ?obs] exI [of _ "0::rat"] exI [of _ False]) (simp add: shop_def)
qed

section \<open>The observation window\<close>

lemma state_items_window:
  assumes "0 < n"
  shows "state_items n h =
           replicate (nat n - min (nat n) (length h)) 0
             @ map fst (drop (length h - min (nat n) (length h)) h)"
proof (cases "int (length h) < n")
  case True
  then have "min (nat n) (length h) = length h" by simp
  with True show ?thesis by (simp add: state_items_def nat_diff_distrib')
next
  case False
  then have m: "min (nat n) (length h) = nat n" using assms by simp
  from False assms show ?thesis
    by (simp add: state_items_def slice_from_def m)
qed

lemma state_ratings_window:
  assumes "0 < n"
  shows "state_ratings n h =
           replicate (nat n - min (nat n) (length h)) 0
             @ map snd (drop (length h - min (nat n) (length h)) h)"
proof (cases "int (length h) < n")
  case True
  then have "min (nat n) (length h) = length h" by simp
  with True show ?thesis by (simp add: state_ratings_def nat_diff_distrib')
next
  case False
  then have m: "min (nat n) (length h) = nat n" using assms by simp
  from False assms show ?thesis
    by (simp add: state_ratings_def slice_from_def m)
qed

lemma length_history_run_steps:
  "length (history (run_steps e as)) = length (history e) + length as"
  by (induction as arbitrary: e) (simp_all add: step_history)

lemma current_user_run_steps: "current_user (run_steps e as) = current_user e"
  by (induction as arbitrary: e) simp_all

lemma N_run_steps: "N (run_steps e as) = N e"
  by (induction as arbitrary: e) simp_all

text \<open>
  With a window \<open>N \<ge> 1\<close> the observation returned by a step is the current user,
  then the item ids of the most recent \<open>min(N, j)\<close> history entries after \<open>N - min(N, j)\<close>
  zeros, then the rewards of the same entries after as many zeros, where \<open>j\<close> is the
  length of the history after the step. Each of the two blocks has exactly \<open>N\<close>
  slots, and for \<open>j < N\<close> each starts with \<open>N - j\<close> zeros.
\<close>

lemma step_observation_window:
  fixes e :: env and a :: int and u :: int
  assumes "0 < N e" and "current_user e = Some u"
  defines "h \<equiv> history (step_env (step e a))"
  defines "w \<equiv> nat (N e)"
  defines "m \<equiv> min w (length h)"
  shows "step_state (step e a) =
           Num (of_int u)
             # map (\<lambda>i. Num (of_int i)) (replicate (w - m) 0 @ map fst (drop (length h - m) h))
             @ map Num (replicate (w - m) 0 @ map snd (drop (length h - m) h))"
    and "length (replicate (w - m) (0::int) @ map fst (drop (length h - m) h)) = w"
    and "length (replicate (w - m) (0::rat) @ map snd (drop (length h - m) h)) = w"
    and "length h < w \<Longrightarrow>
           step_state (step e a) =
             Num (of_int u)
               # map (\<lambda>i. Num (of_int i)) (replicate (w - length h) 0 @ map fst h)
               @ map Num (replicate (w - length h) 0 @ map snd h)"
proof -
  have h: "h = history e @ [(a, reward_of e a)]"
    by (simp add: h_def step_history)
  show "step_state (step e a) =
           Num (of_int u)
             # map (\<lambda>i. Num (of_int i)) (replicate (w - m) 0 @ map fst (drop (length h - m) h))
             @ map Num (replicate (w - m) 0 @ map snd (drop (length h - m) h))"
    unfolding step_state_eq h [symmetric] m_def w_def
    using assms(1,2) by (simp only: state_items_window state_ratings_window user_cell_def option.case)
  then show "length h < w \<Longrightarrow>
           step_state (step e a) =
             Num (of_int u)
               # map (\<lambda>i. Num (of_int i)) (replicate (w - length h) 0 @ map fst h)
               @ map Num (replicate (w - length h) 0 @ map snd h)"
    by (simp add: m_def)
  show "length (replicate (w - m) (0::int) @ map fst (drop (length h - m) h)) = w"
    by (simp add: m_def)
  show "length (replicate (w - m) (0::rat) @ map snd (drop (length h - m) h)) = w"
    by (simp add: m_def)
qed

text \<open>
  Claim C4 says that the observation of the j-th step holds the current user, then the
  item ids of the most recent \<open>min(N, j)\<close> history entries left-padded with zeros to
  exactly \<open>N\<close> slots, then their rewards padded in the same way. With the window
  \<open>N = 0\<close> this fails: \<open>reset\<close> returns the one-entry observation, but the slice
  \<^verbatim>\<open>history[-0:]\<close> is the whole history, so the first step returns three entries
  and the second step five, instead of one.
\<close>

theorem step_observation_zero_window:
  "reset (shop\<lparr>N := 0\<rparr>) 0 = Inr ([Num 7], shop\<lparr>N := 0, current_user := Some 7, history := []\<rparr>)
   \<and> step_state (step (shop\<lparr>N := 0, current_user := Some 7, history := []\<rparr>) 1)
        = [Num 7, Num 1, Num (- (1 / 10))]
   \<and> step_state (step (run_steps (shop\<lparr>N := 0, current_user := Some 7, history := []\<rparr>) [1]) 2)
        = [Num 7, Num 1, Num 2, Num (- (1 / 10)), Num 5]"
  by (simp add: shop_def reset_def step_def reward_of_def state_items_def state_ratings_def
        slice_from_def user_cell_def Let_def)

section \<open>Action selection\<close>

text \<open>
  \<open>argmax_from\<close> scans the rest of the vector with the best index and value so far;
  the result is the first position that holds the maximum of the whole vector.
\<close>

lemma argmax_from_spec:
  assumes "length pre = i" and "best < i" and "pre ! best = v"
      and "\<forall>j<i. pre ! j \<le> v" and "\<forall>j<best. pre ! j < v"
  shows "argmax_from best v i xs < length (pre @ xs)
       \<and> (\<forall>j<length (pre @ xs). (pre @ xs) ! j \<le> (pre @ xs) ! argmax_from best v i xs)
       \<and> (\<forall>j<argmax_from best v i xs. (pre @ xs) ! j < (pre @ xs) ! argmax_from best v i xs)"
  using assms
proof (induction xs arbitrary: pre best v i)
  case Nil
  then show ?case by simp
next
  case (Cons x xs)
  show ?case
  proof (cases "v < x")
    case True
    have len: "length (pre @ [x]) = Suc i" using Cons.prems(1) by simp
    have a: "(pre @ [x]) ! i = x" using Cons.prems(1) by (simp add: nth_append)
    have b: "\<forall>j<Suc i. (pre @ [x]) ! j \<le> x"
    proof (intro allI impI)
      fix j assume "j < Suc i"
      show "(pre @ [x]) ! j \<le> x"
      proof (cases "j < i")
        case True
        then have "(pre @ [x]) ! j = pre ! j" using Cons.prems(1) by (simp add: nth_append)
        moreover have "pre ! j \<le> v" using Cons.prems(4) True by simp
        ultimately show ?thesis using \<open>v < x\<close> by simp
      next
        case False
        with \<open>j < Suc i\<close> have "j = i" by simp
        with a show ?thesis by simp
      qed
    qed
    have c: "\<forall>j<i. (pre @ [x]) ! j < x"
    proof (intro allI impI)
      fix j assume "j < i"
      then have "(pre @ [x]) ! j = pre ! j" using Cons.prems(1) by (simp add: nth_append)
      moreover have "pre ! j \<le> v" using Cons.prems(4) \<open>j < i\<close> by simp
      ultimately show "(pre @ [x]) ! j < x" using \<open>v < x\<close> by simp
    qed
    have "i < Suc i" by simp
    from Cons.IH [OF len this a b c] True show ?thesis by simp
  next
    case False
    have len: "length (pre @ [x]) = Suc i" using Cons.prems(1) by simp
    have lt: "best < Suc i" using Cons.prems(2) by simp
    have a: "(pre @ [x]) ! best = v" using Cons.prems(1,2,3) by (simp add: nth_append)
    have b: "\<forall>j<Suc i. (pre @ [x]) ! j \<le> v"
    proof (intro allI impI)
      fix j assume "j < Suc i"
      show "(pre @ [x]) ! j \<le> v"
      proof (cases "j < i")
        case True
        then show ?thesis using Cons.prems(1,4) by (simp add: nth_append)
      next
        case F: False
        with \<open>j < Suc i\<close> have "j = i" by simp
        then have "(pre @ [x]) ! j = x" using Cons.prems(1) by (simp add: nth_append)
        with False show ?thesis by simp
      qed
    qed
    have c: "\<forall>j<best. (pre @ [x]) ! j < v"
      using Cons.prems(1,2,5) by (simp add: nth_append)
    from Cons.IH [OF len lt a b c] False show ?thesis by simp
  qed
qed

lemma argmax_first_max:
  assumes "q \<noteq> []"
  shows "argmax q < length q
       \<and> (\<forall>j<length q. q ! j \<le> q ! argmax q)
       \<and> (\<forall>j<argmax q. q ! j < q ! argmax q)"
proof -
  from assms obtain x rest where q: "q = x # rest" by (cases q) auto
  have "argmax_from 0 x 1 rest < length ([x] @ rest)
       \<and> (\<forall>j<length ([x] @ rest). ([x] @ rest) ! j \<le> ([x] @ rest) ! argmax_from 0 x 1 rest)
       \<and> (\<forall>j<argmax_from 0 x 1 rest. ([x] @ rest) ! j < ([x] @ rest) ! argmax_from 0 x 1 rest)"
    by (rule argmax_from_spec) simp_all
  then show ?thesis by (simp add: q argmax_def)
qed

lemma py_int_of_int [simp]: "py_int (of_int u) = u"
  by (simp add: py_int_def)

lemma nth_bij_betw_of_distinct:
  "distinct xs \<Longrightarrow> bij_betw (\<lambda>c. xs ! c) {..<length xs} (set xs)"
  by (simp add: bij_betw_nth)

text \<open>
  Claim C6. Let the observation start with the user id, let the scorer return a
  non-empty vector, and let \<open>known\<close> be the user's known relevant items. With the two
  random draws as inputs (\<open>u\<close> from \<^verbatim>\<open>random.random()\<close>, the index \<open>c\<close> from
  \<^verbatim>\<open>random.choice\<close>), \<open>select_action\<close> is a function of the observation, the known
  items and the draws: when the exploration draw fires (\<open>u < 0.75\<close>) and \<open>known\<close> is
  not empty it returns the item of \<open>known\<close> at the drawn index, and the indices
  correspond one to one to the items, so a uniform index is a uniform item; otherwise
  it returns the arg-max of the scores, the lowest index among the maximal ones.
\<close>

theorem select_action_behaviour:
  fixes e :: env and policy_net :: "cell list \<Rightarrow> rat list"
  assumes "state = Num (of_int user) # rest"
      and "policy_net state \<noteq> []"
      and "known = (case user_interactions e user of None \<Rightarrow> [] | Some s \<Rightarrow> s)"
  shows "(known \<noteq> [] \<and> u < 3 / 4 \<and> c < length known \<longrightarrow>
            select_action e policy_net state u c = Inr (known ! c) \<and> known ! c \<in> set known)
       \<and> (known = [] \<or> \<not> u < 3 / 4 \<longrightarrow>
            select_action e policy_net state u c = Inr (int (argmax (policy_net state))))
       \<and> argmax (policy_net state) < length (policy_net state)
       \<and> (\<forall>j<length (policy_net state). policy_net state ! j \<le> policy_net state ! argmax (policy_net state))
       \<and> (\<forall>j<argmax (policy_net state). policy_net state ! j < policy_net state ! argmax (policy_net state))
       \<and> (distinct known \<longrightarrow> bij_betw (\<lambda>c. known ! c) {..<length known} (set known))"
proof -
  have sel: "select_action e policy_net state u c =
               (if known \<noteq> [] \<and> u < 3 / 4
                then (if c < length known then Inr (known ! c) else Inl IndexError)
                else Inr (int (argmax (policy_net state))))"
    using assms(2) by (simp add: select_action_def assms(1) assms(3) Let_def)
  have a: "known \<noteq> [] \<and> u < 3 / 4 \<and> c < length known \<longrightarrow>
            select_action e policy_net state u c = Inr (known ! c) \<and> known ! c \<in> set known"
    by (simp add: sel)
  have b: "known = [] \<or> \<not> u < 3 / 4 \<longrightarrow>
            select_action e policy_net state u c = Inr (int (argmax (policy_net state)))"
    by (auto simp: sel)
  have d: "distinct known \<longrightarrow> bij_betw (\<lambda>c. known ! c) {..<length known} (set known)"
    by (simp add: nth_bij_betw_of_distinct)
  from a b d argmax_first_max [OF assms(2)] show ?thesis by blast
qed

theorem select_action_behaviour_witness:
  "select_action shop7 (\<lambda>st. [1, 3, 3]) [Num 7, Num 0, Num 0] (1 / 2) 1 = Inr 2
   \<and> select_action shop7 (\<lambda>st. [1, 3, 3]) [Num 7, Num 0, Num 0] (3 / 4) 1 = Inr 1
   \<and> select_action shop7 (\<lambda>st. [1, 3, 3]) [Num 8, Num 0, Num 0] (1 / 2) 1 = Inr 1
   \<and> argmax [1, 3, 3] = 1
   \<and> bij_betw (\<lambda>c. [0, 2 :: int] ! c) {..<length [0, 2 :: int]} (set [0, 2])"
  using select_action_behaviour [of "[Num 7, Num 0, Num 0]" 7 "[Num 0, Num 0]" "\<lambda>st. [1, 3, 3]" "[0, 2]" shop7 "1 / 2" 1]
        select_action_behaviour [of "[Num 7, Num 0, Num 0]" 7 "[Num 0, Num 0]" "\<lambda>st. [1, 3, 3]" "[0, 2]" shop7 "3 / 4" 1]
        select_action_behaviour [of "[Num 8, Num 0, Num 0]" 8 "[Num 0, Num 0]" "\<lambda>st. [1, 3, 3]" "[]" shop7 "1 / 2" 1]
  by (simp add: shop7_def shop_def argmax_def)

section \<open>Length of an episode\<close>

lemma select_action_returns:
  assumes "net (Num (of_int u) # rest) \<noteq> []"
      and "\<forall>s. user_interactions e u = Some s \<longrightarrow> s \<noteq> [] \<longrightarrow> c < length s"
  shows "\<exists>a. select_action e net (Num (of_int u) # rest) x c = Inr a"
  using assms by (auto simp: select_action_def Let_def split: option.splits)

lemma step_state_head:
  "current_user e = Some u \<Longrightarrow> \<exists>rest. step_state (step e a) = Num (of_int u) # rest"
  by (simp add: step_state_eq user_cell_def)

lemma episode_loop_returns:
  assumes "current_user e = Some u"
      and "\<exists>rest. state = Num (of_int u) # rest"
      and "int (length (history e)) < max (M e) 1"
      and "map fst (history e) = recs"
      and "\<forall>st. net st \<noteq> []"
      and "\<forall>t s. user_interactions e u = Some s \<longrightarrow> s \<noteq> [] \<longrightarrow> snd (draws t) < length s"
  shows "\<exists>e' st recs' tot'.
           episode_loop net draws e state recs tot = Inr (e', st, recs', tot')
           \<and> int (length recs') = max (M e) 1 \<and> map fst (history e') = recs'"
  using assms
proof (induction net draws e state recs tot rule: episode_loop.induct)
  case (1 net draws e state recs tot)
  from "1.prems"(2) obtain rest where st: "state = Num (of_int u) # rest" by blast
  have "\<exists>a. select_action e net (Num (of_int u) # rest) (fst (draws (length recs)))
              (snd (draws (length recs))) = Inr a"
    using "1.prems"(5,6) by (intro select_action_returns) auto
  then obtain a where sel: "select_action e net state (fst (draws (length recs)))
              (snd (draws (length recs))) = Inr a"
    using st by blast
  have len: "length recs = length (history e)"
    using "1.prems"(4) by (metis length_map)
  have hist': "map fst (history (step_env (step e a))) = recs @ [a]"
    using "1.prems"(4) by (simp add: step_history)
  show ?case
  proof (cases "step_done (step e a)")
    case True
    then have "M e \<le> int (length (history e)) + 1" by (simp add: step_done_eq)
    with "1.prems"(3) have "int (length (history e)) + 1 = max (M e) 1" by linarith
    then have "int (length (recs @ [a])) = max (M e) 1" using len by simp
    moreover have "episode_loop net draws e state recs tot =
        Inr (step_env (step e a), step_state (step e a), recs @ [a], tot + step_reward (step e a))"
      using sel True by (subst episode_loop.simps) simp
    ultimately show ?thesis using hist' by blast
  next
    case False
    then have lt: "int (length (history e)) + 1 < M e" by (simp add: step_done_eq)
    have loop: "episode_loop net draws e state recs tot =
        episode_loop net draws (step_env (step e a)) (step_state (step e a)) (recs @ [a])
          (tot + step_reward (step e a))"
      using sel False by (subst episode_loop.simps) simp
    have p1: "current_user (step_env (step e a)) = Some u" using "1.prems"(1) by simp
    have p2: "\<exists>rest. step_state (step e a) = Num (of_int u) # rest"
      using "1.prems"(1) by (rule step_state_head)
    have p3: "int (length (history (step_env (step e a)))) < max (M (step_env (step e a))) 1"
      using lt by (simp add: step_history)
    have p6: "\<forall>t s. user_interactions (step_env (step e a)) u = Some s \<longrightarrow> s \<noteq> []
                \<longrightarrow> snd (draws t) < length s"
      using "1.prems"(6) by simp
    from "1.IH" [OF sel False p1 p2 p3 hist' "1.prems"(5) p6] loop
    show ?thesis by simp
  qed
qed

text \<open>
  Claim C5, as the code has it. \<open>step\<close> returns done exactly when the history has
  reached at least \<open>M\<close> entries. In an episode, where no step follows a step that
  returned done, this is exactly when the history has \<open>max(M, 1)\<close> entries. An
  episode started by \<open>reset\<close> (with a scorer that returns a non-empty vector and
  choice draws below the number of known items) returns, and its recommendation list
  has exactly \<open>max(M, 1)\<close> entries, the items of the history: exactly \<open>M\<close> when
  \<open>M \<ge> 1\<close>.
\<close>

theorem episode_length:
  assumes "i < length (df_user_idx e)"
      and "\<forall>st. net st \<noteq> []"
      and "\<forall>t s. user_interactions e (df_user_idx e ! i) = Some s \<longrightarrow> s \<noteq> []
             \<longrightarrow> snd (draws t) < length s"
  shows "(\<exists>e' st recs tot.
            run_episode net draws e i = Inr (e', st, recs, tot)
            \<and> int (length recs) = max (M e) 1 \<and> map fst (history e') = recs)
       \<and> (\<forall>e2 a. step_done (step e2 a) \<longleftrightarrow> M e2 \<le> int (length (history (step_env (step e2 a)))))
       \<and> (\<forall>e2 a. int (length (history e2)) < max (M e2) 1 \<longrightarrow>
             (step_done (step e2 a) \<longleftrightarrow>
                int (length (history (step_env (step e2 a)))) = max (M e2) 1))"
proof -
  let ?u = "df_user_idx e ! i"
  let ?e0 = "e\<lparr>current_user := Some ?u, history := []\<rparr>"
  let ?st = "Num (of_int ?u) # replicate (nat (N e)) (Num 0) @ replicate (nat (N e)) (Num 0)"
  have run: "run_episode net draws e i = episode_loop net draws ?e0 ?st [] 0"
    using assms(1) by (simp add: run_episode_def reset_def Let_def)
  have "\<exists>e' st recs' tot'.
           episode_loop net draws ?e0 ?st [] 0 = Inr (e', st, recs', tot')
           \<and> int (length recs') = max (M ?e0) 1 \<and> map fst (history e') = recs'"
    using assms(2,3) by (intro episode_loop_returns [where u = ?u]) simp_all
  then have a: "\<exists>e' st recs tot.
            run_episode net draws e i = Inr (e', st, recs, tot)
            \<and> int (length recs) = max (M e) 1 \<and> map fst (history e') = recs"
    by (simp add: run)
  have b: "\<forall>e2 a. step_done (step e2 a) \<longleftrightarrow> M e2 \<le> int (length (history (step_env (step e2 a))))"
    by (auto simp: step_done_eq step_history)
  have c: "\<forall>e2 a. int (length (history e2)) < max (M e2) 1 \<longrightarrow>
             (step_done (step e2 a) \<longleftrightarrow>
                int (length (history (step_env (step e2 a)))) = max (M e2) 1)"
    by (auto simp: step_done_eq step_history)
  from a b c show ?thesis by blast
qed

theorem episode_length_witness:
  "\<exists>e' st recs tot.
      run_episode (\<lambda>st. [1, 3, 3]) (\<lambda>t. (1 / 2, 1)) shop 0 = Inr (e', st, recs, tot)
      \<and> int (length recs) = 10 \<and> map fst (history e') = recs"
proof -
  have a: "0 < length (df_user_idx shop)" by (simp add: shop_def)
  have b: "\<forall>st. (\<lambda>st :: cell list. [1, 3, 3 :: rat]) st \<noteq> []" by simp
  have c: "\<forall>t s. user_interactions shop (df_user_idx shop ! 0) = Some s \<longrightarrow> s \<noteq> []
             \<longrightarrow> snd ((\<lambda>t :: nat. (1 / 2 :: rat, 1 :: nat)) t) < length s"
    by (simp add: shop_def)
  show ?thesis
    using episode_length [OF a b c] by (simp add: shop_def)
qed

text \<open>
  With \<open>M = 0\<close> the first step returns done with a history of one entry, and the
  episode recommends one item, not none.
\<close>

theorem episode_zero_steps_counterexample:
  "M (shop7\<lparr>M := 0\<rparr>) = 0 \<and> history (shop7\<lparr>M := 0\<rparr>) = []
   \<and> step_done (step (shop7\<lparr>M := 0\<rparr>) 1)
   \<and> length (history (step_env (step (shop7\<lparr>M := 0\<rparr>) 1))) = 1
   \<and> (\<exists>e' st tot.
        run_episode (\<lambda>st. [1, 3, 3]) (\<lambda>t. (3 / 4, 0)) (shop\<lparr>M := 0\<rparr>) 0 = Inr (e', st, [1], tot)
        \<and> history e' = [(1, - (1 / 10))])"
  apply (simp add: step_done_eq step_history)
  apply (simp add: shop7_def shop_def run_episode_def reset_def Let_def)
  apply (subst episode_loop.simps)
  apply (simp add: select_action_def argmax_def Let_def step_done_eq step_history reward_of_def)
  done

section \<open>The item-id remapping is a bijection\<close>

lemma set_unique_from: "set (unique_from seen xs) = set xs - set seen"
  by (induction xs arbitrary: seen) auto

lemma distinct_unique_from: "distinct (unique_from seen xs)"
  by (induction xs arbitrary: seen) (auto simp: set_unique_from)

lemma unique_from_cong: "set s1 = set s2 \<Longrightarrow> unique_from s1 xs = unique_from s2 xs"
proof (induction xs arbitrary: s1 s2)
  case Nil
  then show ?case by simp
next
  case (Cons x xs)
  from Cons.prems have "set (x # s1) = set (x # s2)" by simp
  then have "unique_from (x # s1) xs = unique_from (x # s2) xs" by (rule Cons.IH)
  moreover have "unique_from s1 xs = unique_from s2 xs" using Cons.prems by (rule Cons.IH)
  ultimately show ?case using Cons.prems by simp
qed

lemma unique_from_append:
  "unique_from seen (xs @ ys) = unique_from seen xs @ unique_from (xs @ seen) ys"
proof (induction xs arbitrary: seen)
  case Nil
  then show ?case by simp
next
  case (Cons x xs)
  show ?case
  proof (cases "x \<in> set seen")
    case True
    have "unique_from (xs @ seen) ys = unique_from ((x # xs) @ seen) ys"
      using True by (intro unique_from_cong) auto
    with True Cons.IH [of seen] show ?thesis by simp
  next
    case False
    have "unique_from (xs @ x # seen) ys = unique_from ((x # xs) @ seen) ys"
      by (intro unique_from_cong) auto
    with False Cons.IH [of "x # seen"] show ?thesis by simp
  qed
qed

lemma set_unique [simp]: "set (unique xs) = set xs"
  by (simp add: unique_def set_unique_from)

lemma distinct_unique [simp]: "distinct (unique xs)"
  by (simp add: unique_def distinct_unique_from)

lemma length_unique: "length (unique xs) = card (set xs)"
  by (metis distinct_card distinct_unique set_unique)

lemma first_index_Cons:
  "first_index (x # xs) y = (if y = x then 0 else Suc (first_index xs y))"
  by (simp add: first_index_def)

lemma unique_from_first_seen:
  "sorted_wrt (\<lambda>a b. first_index xs a < first_index xs b) (unique_from seen xs)"
proof (induction xs arbitrary: seen)
  case Nil
  then show ?case by simp
next
  case (Cons x xs)
  have mono: "sorted_wrt (\<lambda>a b. first_index (x # xs) a < first_index (x # xs) b) (unique_from s xs)"
    if "x \<in> set s" for s
  proof (rule sorted_wrt_mono_rel [OF _ Cons.IH [of s]])
    fix a b
    assume "a \<in> set (unique_from s xs)" and "b \<in> set (unique_from s xs)"
       and "first_index xs a < first_index xs b"
    with that show "first_index (x # xs) a < first_index (x # xs) b"
      by (auto simp: first_index_Cons set_unique_from)
  qed
  show ?case
  proof (cases "x \<in> set seen")
    case True
    then show ?thesis using mono [of seen] by simp
  next
    case False
    have "\<forall>y \<in> set (unique_from (x # seen) xs). first_index (x # xs) x < first_index (x # xs) y"
      by (auto simp: first_index_Cons set_unique_from)
    then show ?thesis using False mono [of "x # seen"] by simp
  qed
qed

lemma fold_enumerate_map:
  assumes "distinct ys"
  shows "fold (\<lambda>(new_idx, old_idx) m. m(old_idx \<mapsto> new_idx)) (enumerate k ys) m0
           = (\<lambda>x. if x \<in> set ys then Some (k + first_index ys x) else m0 x)"
  using assms
proof (induction ys arbitrary: k m0)
  case Nil
  then show ?case by simp
next
  case (Cons y ys)
  then have "distinct ys" and "y \<notin> set ys" by simp_all
  from Cons.IH [OF \<open>distinct ys\<close>, of "Suc k" "m0(y \<mapsto> k)"] \<open>y \<notin> set ys\<close>
  show ?case
    by (auto simp: first_index_Cons fun_eq_iff)
qed

lemma item_mapping_eq:
  "item_mapping train test =
     (\<lambda>x. if x \<in> set train \<union> set test
          then Some (first_index (all_items train test) x) else None)"
  unfolding item_mapping_def all_items_def by (simp add: fold_enumerate_map fun_eq_iff)

lemma first_index_less: "x \<in> set xs \<Longrightarrow> first_index xs x < length xs"
  by (induction xs) (auto simp: first_index_Cons)

lemma nth_first_index: "x \<in> set xs \<Longrightarrow> xs ! first_index xs x = x"
  by (induction xs) (auto simp: first_index_Cons)

lemma first_index_nth: "distinct xs \<Longrightarrow> i < length xs \<Longrightarrow> first_index xs (xs ! i) = i"
proof (induction xs arbitrary: i)
  case Nil
  then show ?case by simp
next
  case (Cons x xs)
  show ?case
  proof (cases i)
    case 0
    then show ?thesis by (simp add: first_index_Cons)
  next
    case (Suc j)
    with Cons.prems have "j < length xs" and "xs ! j \<noteq> x" and "distinct xs" by auto
    with Cons.IH [of j] Suc show ?thesis by (simp add: first_index_Cons)
  qed
qed

lemma sorted_wrt_nth_less:
  "sorted_wrt P xs \<Longrightarrow> i < j \<Longrightarrow> j < length xs \<Longrightarrow> P (xs ! i) (xs ! j)"
  by (simp add: sorted_wrt_iff_nth_less)

text \<open>The dense ids follow the order of first appearance.\<close>

lemma all_items_order:
  assumes "x \<in> set train \<union> set test" and "y \<in> set train \<union> set test"
  shows "first_index (all_items train test) x < first_index (all_items train test) y
           \<longleftrightarrow> first_index (train @ test) x < first_index (train @ test) y"
proof -
  let ?U = "all_items train test"
  let ?f = "first_index (train @ test)"
  have sw: "sorted_wrt (\<lambda>a b. ?f a < ?f b) ?U"
    unfolding all_items_def unique_def by (rule unique_from_first_seen)
  have mem: "x \<in> set ?U" "y \<in> set ?U"
    using assms by (simp_all add: all_items_def)
  have d: "distinct ?U" by (simp add: all_items_def)
  have step: "?f a < ?f b" if "a \<in> set ?U" "b \<in> set ?U" "first_index ?U a < first_index ?U b" for a b
  proof -
    have "?f (?U ! first_index ?U a) < ?f (?U ! first_index ?U b)"
      using sw that(3) first_index_less [OF that(2)] by (rule sorted_wrt_nth_less)
    then show ?thesis using that(1,2) by (simp add: nth_first_index)
  qed
  show ?thesis
  proof
    assume "first_index ?U x < first_index ?U y"
    then show "?f x < ?f y" using mem step by blast
  next
    assume lt: "?f x < ?f y"
    show "first_index ?U x < first_index ?U y"
    proof (rule ccontr)
      assume "\<not> first_index ?U x < first_index ?U y"
      then consider "first_index ?U y < first_index ?U x" | "first_index ?U x = first_index ?U y"
        by linarith
      then show False
      proof cases
        case 1
        then have "?f y < ?f x" using mem step by blast
        with lt show False by simp
      next
        case 2
        then have "?U ! first_index ?U x = ?U ! first_index ?U y" by simp
        then have "x = y" using mem by (simp add: nth_first_index)
        with lt show False by simp
      qed
    qed
  qed
qed

lemma all_items_train_prefix:
  "all_items train test = unique train @ unique_from train test"
  by (simp add: all_items_def unique_def unique_from_append)

lemma first_index_append_left:
  "x \<in> set xs \<Longrightarrow> first_index (xs @ ys) x = first_index xs x"
  by (induction xs) (auto simp: first_index_Cons)

lemma first_index_append_right:
  "x \<notin> set xs \<Longrightarrow> first_index (xs @ ys) x = length xs + first_index ys x"
  by (induction xs) (auto simp: first_index_Cons)

lemma concat_map_some:
  "(\<forall>x \<in> set xs. \<exists>y. f x = Some y) \<Longrightarrow>
     concat (map (\<lambda>v. case v of None \<Rightarrow> [] | Some y \<Rightarrow> [y]) (map f xs)) = map (\<lambda>x. the (f x)) xs"
  by (induction xs) auto

lemma num_items_of_eq: "num_items_of train test = card (set train)"
proof -
  let ?m = "item_mapping train test"
  let ?g = "\<lambda>x. first_index (all_items train test) x"
  have some: "\<forall>x \<in> set train. \<exists>y. ?m x = Some y"
    by (simp add: item_mapping_eq)
  have "num_items_of train test = length (unique (map (\<lambda>x. the (?m x)) train))"
    unfolding num_items_of_def nunique_def series_map_def
    by (simp only: concat_map_some [OF some])
  also have "\<dots> = card ((\<lambda>x. the (?m x)) ` set train)"
    by (simp add: length_unique)
  also have "(\<lambda>x. the (?m x)) ` set train = ?g ` set train"
    by (rule image_cong) (simp_all add: item_mapping_eq)
  also have "card (?g ` set train) = card (set train)"
  proof (rule card_image)
    show "inj_on ?g (set train)"
    proof (rule inj_onI)
      fix x y assume "x \<in> set train" "y \<in> set train" "?g x = ?g y"
      then have "all_items train test ! ?g x = all_items train test ! ?g y" by simp
      moreover have "x \<in> set (all_items train test)" "y \<in> set (all_items train test)"
        using \<open>x \<in> set train\<close> \<open>y \<in> set train\<close> by (simp_all add: all_items_def)
      ultimately show "x = y" by (simp add: nth_first_index)
    qed
  qed
  finally show ?thesis .
qed


lemma item_mapping_the:
  "x \<in> set train \<union> set test \<Longrightarrow>
     the (item_mapping train test x) = first_index (all_items train test) x"
  by (simp add: item_mapping_eq)

lemma first_index_inj_on: "inj_on (first_index xs) (set xs)"
proof (rule inj_onI)
  fix x y assume "x \<in> set xs" "y \<in> set xs" "first_index xs x = first_index xs y"
  then have "xs ! first_index xs x = xs ! first_index xs y" by simp
  then show "x = y" using \<open>x \<in> set xs\<close> \<open>y \<in> set xs\<close> by (simp add: nth_first_index)
qed

lemma first_index_image: "distinct xs \<Longrightarrow> first_index xs ` set xs = {..<length xs}"
proof (intro equalityI subsetI)
  fix i assume "i \<in> first_index xs ` set xs"
  then show "i \<in> {..<length xs}" by (auto simp: first_index_less)
next
  fix i assume d: "distinct xs" and "i \<in> {..<length xs}"
  then have "i < length xs" by simp
  then have "xs ! i \<in> set xs" and "first_index xs (xs ! i) = i"
    using d by (simp_all add: first_index_nth)
  then show "i \<in> first_index xs ` set xs" by (metis imageI)
qed

text \<open>
  The remapping built from the train column followed by the test column has exactly
  the original ids of the two columns as keys and maps them one to one onto the dense
  ids below \<open>n\<close>, the number of distinct original ids; the dense ids follow the
  order of first appearance. \<open>num_items\<close> is the number of distinct train ids only: the
  train ids are mapped onto the dense ids below \<open>num_items\<close>, \<open>num_items \<le> n\<close>, and
  the two are equal exactly when every test id also occurs in train.
\<close>

theorem item_mapping_bijection:
  fixes train test :: "int list"
  shows "dom (item_mapping train test) = set train \<union> set test
       \<and> bij_betw (\<lambda>x. the (item_mapping train test x)) (set train \<union> set test)
            {..<card (set train \<union> set test)}
       \<and> (\<forall>x \<in> set train \<union> set test. \<forall>y \<in> set train \<union> set test.
             the (item_mapping train test x) < the (item_mapping train test y)
               \<longleftrightarrow> first_index (train @ test) x < first_index (train @ test) y)
       \<and> num_items_of train test = card (set train)
       \<and> (\<lambda>x. the (item_mapping train test x)) ` set train = {..<num_items_of train test}
       \<and> num_items_of train test \<le> card (set train \<union> set test)
       \<and> (num_items_of train test = card (set train \<union> set test) \<longleftrightarrow> set test \<subseteq> set train)"
proof -
  let ?S = "set train \<union> set test"
  let ?U = "all_items train test"
  let ?m = "\<lambda>x. the (item_mapping train test x)"
  have setU: "set ?U = ?S" by (simp add: all_items_def)
  have dU: "distinct ?U" by (simp add: all_items_def)
  have lenU: "length ?U = card ?S" by (simp add: all_items_def length_unique)
  have c1: "dom (item_mapping train test) = ?S"
    by (auto simp: item_mapping_eq split: if_splits)
  have "bij_betw (first_index ?U) ?S {..<card ?S}"
    unfolding bij_betw_def
    using first_index_inj_on [of ?U] first_index_image [OF dU] by (simp add: setU lenU)
  moreover have "\<forall>x \<in> ?S. first_index ?U x = ?m x"
    by (simp add: item_mapping_eq)
  ultimately have c2: "bij_betw ?m ?S {..<card ?S}"
    using bij_betw_cong [of ?S "first_index ?U" ?m "{..<card ?S}"] by blast
  have c3: "\<forall>x \<in> ?S. \<forall>y \<in> ?S. ?m x < ?m y
               \<longleftrightarrow> first_index (train @ test) x < first_index (train @ test) y"
  proof (intro ballI)
    fix x y assume "x \<in> ?S" "y \<in> ?S"
    then show "?m x < ?m y \<longleftrightarrow> first_index (train @ test) x < first_index (train @ test) y"
      using all_items_order [of x train test y] by (simp add: item_mapping_the)
  qed
  have c4: "num_items_of train test = card (set train)"
    by (rule num_items_of_eq)
  have tr: "?m x = first_index (unique train) x" if "x \<in> set train" for x
    using that by (simp add: item_mapping_the all_items_train_prefix first_index_append_left)
  have "?m ` set train = first_index (unique train) ` set train"
    by (simp add: tr cong: image_cong_simp)
  also have "\<dots> = {..<length (unique train)}"
    using first_index_image [of "unique train"] by simp
  finally have c5: "?m ` set train = {..<num_items_of train test}"
    by (simp add: c4 length_unique)
  have c6: "num_items_of train test \<le> card ?S"
    unfolding c4 by (rule card_mono) auto
  have c7: "num_items_of train test = card ?S \<longleftrightarrow> set test \<subseteq> set train"
  proof
    assume "num_items_of train test = card ?S"
    then have "card (set train) = card ?S" by (simp add: c4)
    then have "set train = ?S"
      by (intro card_subset_eq) auto
    then show "set test \<subseteq> set train" by blast
  next
    assume "set test \<subseteq> set train"
    then have "?S = set train" by blast
    then show "num_items_of train test = card ?S" by (simp add: c4)
  qed
  from c1 c2 c3 c4 c5 c6 c7 show ?thesis by blast
qed

theorem item_mapping_bijection_example:
  "item_mapping [10, 30, 10] [20, 30] 10 = Some 0
   \<and> item_mapping [10, 30, 10] [20, 30] 30 = Some 1
   \<and> item_mapping [10, 30, 10] [20, 30] 20 = Some 2
   \<and> num_items_of [10, 30, 10] [20, 30] = 2
   \<and> card (set [10, 30, 10 :: int]) = 2
   \<and> first_index ([10, 30, 10] @ [20, 30 :: int]) 30 < first_index ([10, 30, 10] @ [20, 30 :: int]) 20
   \<and> the (item_mapping [10, 30, 10] [20, 30] 30) < the (item_mapping [10, 30, 10] [20, 30] 20)"
proof -
  note t = item_mapping_bijection [of "[10, 30, 10]" "[20, 30]"]
  have v: "item_mapping [10, 30, 10] [20, 30] 10 = Some 0"
          "item_mapping [10, 30, 10] [20, 30] 30 = Some 1"
          "item_mapping [10, 30, 10] [20, 30] 20 = Some 2"
    by (simp_all add: item_mapping_def all_items_def unique_def)
  have c: "card (set [10, 30, 10 :: int]) = 2"
    unfolding List.card_set by simp
  from t have "num_items_of [10, 30, 10] [20, 30] = card (set [10, 30, 10 :: int])"
    by (elim conjE)
  with c have n: "num_items_of [10, 30, 10] [20, 30] = 2"
    by simp
  have f: "first_index ([10, 30, 10] @ [20, 30 :: int]) 30 < first_index ([10, 30, 10] @ [20, 30 :: int]) 20"
    by (simp add: first_index_def)
  from t have "\<forall>x \<in> set [10, 30, 10] \<union> set [20, 30]. \<forall>y \<in> set [10, 30, 10] \<union> set [20, 30].
             the (item_mapping [10, 30, 10] [20, 30] x) < the (item_mapping [10, 30, 10] [20, 30] y)
               \<longleftrightarrow> first_index ([10, 30, 10] @ [20, 30]) x < first_index ([10, 30, 10] @ [20, 30]) y"
    by (elim conjE)
  then have "the (item_mapping [10, 30, 10] [20, 30] 30) < the (item_mapping [10, 30, 10] [20, 30] 20)
               \<longleftrightarrow> first_index ([10, 30, 10] @ [20, 30 :: int]) 30 < first_index ([10, 30, 10] @ [20, 30 :: int]) 20"
    by simp
  with f have o: "the (item_mapping [10, 30, 10] [20, 30] 30) < the (item_mapping [10, 30, 10] [20, 30] 20)"
    by (simp only:)
  from v c n f o show ?thesis by (intro conjI)
qed

text \<open>
  Claim C7 says that the remapping built from the train and test splits maps every
  original item id of either split to a dense id below \<open>num_items\<close>. This fails when
  the test split has an item id that the train split lacks: with train ids \<open>[10]\<close>
  and test ids \<open>[20]\<close> the id 20 is mapped to the dense id 1, while \<open>num_items\<close>,
  counted on the train split alone, is 1.
\<close>

theorem item_mapping_outside_num_items:
  "20 \<in> set [10] \<union> set [20 :: int]
   \<and> item_mapping [10] [20] 20 = Some 1
   \<and> num_items_of [10] [20] = 1
   \<and> \<not> the (item_mapping [10] [20] 20) < num_items_of [10] [20]"
  by (simp add: item_mapping_def all_items_def unique_def num_items_of_def nunique_def
        series_map_def)

end
